theory Spec2Isabelle
  imports Main
begin

section \<open>The batcher of \<open>src/index.ts\<close>\<close>

text \<open>
  \<open>create\<close> closes over six variables (\<open>seq\<close>, \<open>batch\<close>, \<open>currentRequest\<close>,
  \<open>timer\<close>, \<open>start\<close>, \<open>latest\<close>) and returns \<open>fetch\<close>. The model keeps them as the
  fields of one record, next to the timers armed with \<open>setTimeout\<close> and the deferreds
  created so far, and passes that record through \<open>fetch\<close>, through the callback handed
  to \<open>setTimeout\<close>, and through the \<open>then\<close>/\<open>catch\<close> handlers on the fetcher's promise.
  Time stamps (\<open>Date.now()\<close>) and delays are integers, in milliseconds. The devtools
  hooks only read the state and are left out. The scheduler is a pure function of its
  two arguments, as its type and doc comment say; the fetcher is arbitrary code of the
  caller, which may call \<open>fetch\<close> itself and may throw.
\<close>

subsection \<open>Schedulers\<close>

type_synonym BatcherScheduler = "int \<Rightarrow> int \<Rightarrow> int"

definition windowScheduler :: "int \<Rightarrow> BatcherScheduler" where
  "windowScheduler ms = (\<lambda>start latest. let spent = latest - start in ms - spent)"

definition bufferScheduler :: "int \<Rightarrow> BatcherScheduler" where
  "bufferScheduler ms = (\<lambda>_ _. ms)"

subsection \<open>JavaScript values and \<open>keyEquality\<close>\<close>

text \<open>
  The values a field of an item or a query can hold. Numbers are the integers and
  \<open>NaN\<close>, which is kept apart because \<open>===\<close> treats it differently. \<open>JObj\<close> carries
  the identity of an object (its reference).
\<close>

datatype jsval =
  JUndefined | JNull | JBool bool | JNum int | JNaN | JStr string | JObj nat

text \<open>\<open>a === b\<close>: same type and same value, objects by reference, \<open>NaN\<close> equal to nothing.\<close>

definition strict_eq :: "jsval \<Rightarrow> jsval \<Rightarrow> bool" where
  "strict_eq a b =
     (case (a, b) of
        (JUndefined, JUndefined) \<Rightarrow> True
      | (JNull, JNull) \<Rightarrow> True
      | (JBool x, JBool y) \<Rightarrow> x = y
      | (JNum x, JNum y) \<Rightarrow> x = y
      | (JStr x, JStr y) \<Rightarrow> x = y
      | (JObj x, JObj y) \<Rightarrow> x = y
      | _ \<Rightarrow> False)"

text \<open>
  An item is an object: its own properties, each name once, with their values.
  \<open>item[key]\<close> reads the value stored under \<open>key\<close>; a missing property reads
  \<open>undefined\<close>.
\<close>

type_synonym item = "(string \<times> jsval) list"

fun field :: "item \<Rightarrow> string \<Rightarrow> jsval" where
  "field [] key = JUndefined"
| "field ((name, v) # props) key = (if name = key then v else field props key)"

definition keyEquality :: "string \<Rightarrow> item \<Rightarrow> jsval \<Rightarrow> bool" where
  "keyEquality key = (\<lambda>item query. strict_eq (field item key) query)"

subsection \<open>Configuration\<close>

text \<open>
  The object handed to \<open>create\<close>. \<open>config.equality\<close> is a key of the item type or a
  function; where the object has no such property it reads \<open>undefined\<close> (\<open>Missing\<close>), and
  \<open>item[undefined]\<close> reads the property named \<open>undefined\<close>. \<open>config.scheduler\<close> is
  optional. \<open>resolver\<close> is a property that the test file and the example hook pass;
  \<open>index.ts\<close> never reads it. \<open>config.fetcher\<close> is the external collaborator: the model
  does not compute it, it records each invocation, takes what the fetcher does while it
  runs from the environment, and lets the environment settle the returned promise.
\<close>

datatype equality_option = Key string | Function "item \<Rightarrow> jsval \<Rightarrow> bool" | Missing

record 'v BatcherConfig =
  scheduler :: "BatcherScheduler option"
  equality :: equality_option
  resolver :: "(item list \<Rightarrow> jsval \<Rightarrow> 'v) option"

definition config_scheduler :: "'v BatcherConfig \<Rightarrow> BatcherScheduler" where
  "config_scheduler config =
     (case scheduler config of None \<Rightarrow> windowScheduler 10 | Some s \<Rightarrow> s)"

definition config_equality :: "'v BatcherConfig \<Rightarrow> item \<Rightarrow> jsval \<Rightarrow> bool" where
  "config_equality config =
     (case equality config of
        Function f \<Rightarrow> f
      | Key key \<Rightarrow> keyEquality key
      | Missing \<Rightarrow> keyEquality ''undefined'')"

subsection \<open>Deferred results\<close>

text \<open>
  Modelled from the spec: \<open>./deferred\<close> is imported by \<open>index.ts\<close> and is not among
  the sources. The spec describes a promise-like handle that is settled from outside,
  exactly once, and shared by every caller of one batch. A deferred is a cell that is
  pending, resolved with the fetched data, or rejected with an error; \<open>resolve\<close> and
  \<open>reject\<close> act on a pending cell only.
\<close>

datatype ('t, 'e) deferred = Pending | Resolved "'t list" | Rejected 'e

fun resolve :: "('t, 'e) deferred \<Rightarrow> 't list \<Rightarrow> ('t, 'e) deferred" where
  "resolve Pending data = Resolved data"
| "resolve d _ = d"

fun reject :: "('t, 'e) deferred \<Rightarrow> 'e \<Rightarrow> ('t, 'e) deferred" where
  "reject Pending error = Rejected error"
| "reject d _ = d"

subsection \<open>Timers\<close>

text \<open>
  A timer armed with \<open>setTimeout\<close>: the handle returned (\<open>timer\<close> has the type
  \<open>NodeJS.Timeout\<close>), the time of the call and the delay given. Node uses the delay as
  it is when it lies between 1 and \<open>2^31 - 1\<close>, and 1 millisecond otherwise; the callback
  runs when that time has passed, so never before the timer is armed.
\<close>

record timeout =
  handle :: nat
  armed_at :: int
  delay :: int

definition TIMEOUT_MAX :: int where
  "TIMEOUT_MAX = 2147483647"

definition clamp :: "int \<Rightarrow> int" where
  "clamp after = (if 1 \<le> after \<and> after \<le> TIMEOUT_MAX then after else 1)"

definition expiry :: "timeout \<Rightarrow> int" where
  "expiry tm = armed_at tm + clamp (delay tm)"

text \<open>\<open>clearTimeout(timer)\<close>: the timer with that handle, if still armed, is cancelled.\<close>

fun clearTimeout :: "nat option \<Rightarrow> timeout list \<Rightarrow> timeout list" where
  "clearTimeout None tms = tms"
| "clearTimeout (Some h) tms = filter (\<lambda>tm. handle tm \<noteq> h) tms"

subsection \<open>State\<close>

text \<open>
  One call of \<open>config.fetcher\<close>, as made by the timer callback: when, with which
  sequence number and queries, and the deferred the callback saved as \<open>_currentRequest\<close>
  for the handlers on the promise the call returned (\<open>None\<close> when the call threw and
  returned nothing).
\<close>

record 'q invocation =
  fired_at :: int
  currentSeq :: nat
  queries :: "'q list"
  request :: "nat option"

text \<open>
  The promise \<open>fetch\<close> returns is \<open>currentRequest.value.then(...)\<close>: it is determined by
  the deferred it was chained from and by the caller's query.
\<close>

record 'q promise =
  chained_from :: nat
  asked :: 'q

text \<open>
  The first six fields are the closure variables of \<open>create\<close>. \<open>batch\<close> is a
  \<open>Set\<close>, kept as the list of its elements in insertion order; equality on \<open>'q\<close> stands
  for the key equality of \<open>Set\<close> (primitives by value, objects by reference). \<open>timer\<close>
  holds a handle or \<open>undefined\<close>. \<open>currentRequest\<close> is a reference into \<open>deferreds\<close>,
  the store of all deferreds created so far. \<open>timers\<close> are the timers armed and not yet
  run or cancelled, \<open>next_handle\<close> the handle the next \<open>setTimeout\<close> returns.
  \<open>invocations\<close> lists the calls of the fetcher and \<open>promises\<close> the promises handed to
  callers, both in order.
\<close>

record ('q, 't, 'e) batcher =
  seq :: nat
  batch :: "'q list"
  currentRequest :: nat
  timer :: "nat option"
  start :: "int option"
  latest :: "int option"
  deferreds :: "('t, 'e) deferred list"
  timers :: "timeout list"
  next_handle :: nat
  invocations :: "'q invocation list"
  promises :: "'q promise list"

definition create :: "('q, 't, 'e) batcher" where
  "create = \<lparr> seq = 0, batch = [], currentRequest = 0, timer = None,
              start = None, latest = None,
              deferreds = [Pending], timers = [], next_handle = 0,
              invocations = [], promises = [] \<rparr>"

subsection \<open>\<open>fetch\<close>\<close>

text \<open>\<open>batch.add(query)\<close>: a \<open>Set\<close> keeps an element once, at the place it was first added.\<close>

definition set_add :: "'q list \<Rightarrow> 'q \<Rightarrow> 'q list" where
  "set_add xs q = (if q \<in> set xs then xs else xs @ [q])"

text \<open>
  \<open>fetch(query)\<close>, called while \<open>Date.now()\<close> reads \<open>now\<close>, line by line:
  \<open>if (!start) start = Date.now()\<close>, where \<open>start\<close> is a number or \<open>null\<close> and the
  test \<open>!start\<close> is true for \<open>null\<close> and for the number \<open>0\<close>; \<open>latest = Date.now()\<close>;
  \<open>batch.add(query)\<close>; \<open>clearTimeout(timer)\<close>; \<open>scheduled = scheduler(start, latest)\<close>;
  \<open>timer = setTimeout(..., scheduled)\<close>; and the returned promise, chained from the
  current deferred.
\<close>

definition fetch ::
  "BatcherScheduler \<Rightarrow> int \<Rightarrow> 'q \<Rightarrow> ('q, 't, 'e) batcher \<Rightarrow> ('q, 't, 'e) batcher" where
  "fetch sched now query w =
     (let start' = (case start w of None \<Rightarrow> now
                    | Some s \<Rightarrow> if s = 0 then now else s);
          latest' = now;
          batch' = set_add (batch w) query;
          cleared = clearTimeout (timer w) (timers w);
          scheduled = sched start' latest';
          armed = \<lparr> handle = next_handle w, armed_at = now, delay = scheduled \<rparr>
      in w \<lparr> start := Some start',
             latest := Some latest',
             batch := batch',
             timers := cleared @ [armed],
             next_handle := Suc (next_handle w),
             timer := Some (handle armed),
             promises := promises w @ [\<lparr> chained_from = currentRequest w, asked = query \<rparr>] \<rparr>)"

subsection \<open>The timer callback\<close>

text \<open>
  What a call of the fetcher does before the callback goes on: the calls of \<open>fetch\<close> it
  makes while it runs, each with the time it reads, and whether it then returns its
  promise or throws.
\<close>

datatype 'q fetcher_run = Returns "(int \<times> 'q) list" | Throws "(int \<times> 'q) list"

fun calls_of :: "'q fetcher_run \<Rightarrow> (int \<times> 'q) list" where
  "calls_of (Returns cs) = cs"
| "calls_of (Throws cs) = cs"

definition nested ::
  "BatcherScheduler \<Rightarrow> (int \<times> 'q) list \<Rightarrow> ('q, 't, 'e) batcher \<Rightarrow> ('q, 't, 'e) batcher" where
  "nested sched cs w = foldl (\<lambda>w c. fetch sched (fst c) (snd c) w) w cs"

text \<open>
  The function handed to \<open>setTimeout\<close>, run at time \<open>now\<close>, line by line. It reads
  \<open>seq\<close> and calls \<open>config.fetcher([...batch])\<close>: the list is taken first, then the
  fetcher runs, and with it the calls of \<open>fetch\<close> it makes. If the fetcher throws, the
  callback ends there, as nothing catches. Otherwise the callback keeps the current
  deferred as \<open>_currentRequest\<close>, replaces \<open>batch\<close> and \<open>currentRequest\<close> by new ones,
  sets \<open>timer\<close> to \<open>undefined\<close> without cancelling anything, sets \<open>start\<close> and \<open>latest\<close>
  to \<open>null\<close>, puts the handlers on the promise, and increments \<open>seq\<close>.
\<close>

definition timer_callback ::
  "BatcherScheduler \<Rightarrow> int \<Rightarrow> 'q fetcher_run \<Rightarrow> ('q, 't, 'e) batcher \<Rightarrow> ('q, 't, 'e) batcher" where
  "timer_callback sched now does w =
     (let currentSeq' = seq w;
          sent = batch w;
          w1 = nested sched (calls_of does) w
      in case does of
           Throws _ \<Rightarrow>
             w1 \<lparr> invocations := invocations w1 @
                    [\<lparr> fired_at = now, currentSeq = currentSeq', queries = sent,
                       request = None \<rparr>] \<rparr>
         | Returns _ \<Rightarrow>
             w1 \<lparr> invocations := invocations w1 @
                    [\<lparr> fired_at = now, currentSeq = currentSeq', queries = sent,
                       request = Some (currentRequest w1) \<rparr>],
                  batch := [],
                  deferreds := deferreds w1 @ [Pending],
                  currentRequest := length (deferreds w1),
                  timer := None,
                  start := None,
                  latest := None,
                  seq := Suc (seq w1) \<rparr>)"

subsection \<open>Settling\<close>

text \<open>
  The promise that the \<open>i\<close>-th fetcher call returned settles with \<open>Inr data\<close> or
  \<open>Inl error\<close>; the \<open>then\<close> handler resolves and the \<open>catch\<close> handler rejects the
  deferred that the callback saved as \<open>_currentRequest\<close>. A call that threw returned no
  promise.
\<close>

definition settle ::
  "nat \<Rightarrow> 'e + 't list \<Rightarrow> ('q, 't, 'e) batcher \<Rightarrow> ('q, 't, 'e) batcher" where
  "settle i result w =
     (if i < length (invocations w) then
        (case request (invocations w ! i) of
           None \<Rightarrow> w
         | Some r \<Rightarrow>
             if r < length (deferreds w) then
               w \<lparr> deferreds := (deferreds w)
                     [r := (case result of
                              Inr data \<Rightarrow> resolve (deferreds w ! r) data
                            | Inl error \<Rightarrow> reject (deferreds w ! r) error)] \<rparr>
             else w)
      else w)"

text \<open>
  What a caller sees of its promise: \<open>data.find((item) => equality(item, query))\<close> once
  the deferred is resolved (\<open>None\<close> is \<open>undefined\<close>), the error once it is rejected.
\<close>

datatype ('t, 'e) outcome = Waiting | Fulfilled "'t option" | Failed 'e

definition deref :: "('t, 'e) deferred list \<Rightarrow> nat \<Rightarrow> ('t, 'e) deferred" where
  "deref ds r = (if r < length ds then ds ! r else Pending)"

definition promise_outcome ::
  "('t \<Rightarrow> 'q \<Rightarrow> bool) \<Rightarrow> ('q, 't, 'e) batcher \<Rightarrow> 'q promise \<Rightarrow> ('t, 'e) outcome" where
  "promise_outcome eq w p =
     (case deref (deferreds w) (chained_from p) of
        Pending \<Rightarrow> Waiting
      | Resolved data \<Rightarrow> Fulfilled (List.find (\<lambda>item. eq item (asked p)) data)
      | Rejected error \<Rightarrow> Failed error)"

subsection \<open>Events\<close>

text \<open>
  What can happen to a batcher: a caller calls \<open>fetch(query)\<close> while the clock reads
  \<open>now\<close>; an armed timer expires and the callback runs, with the fetcher doing what the
  event says; the promise of a fetcher call settles. A timer that is not armed does not
  expire.
\<close>

datatype ('q, 't, 'e) event =
  Fetch int 'q | Expire nat "'q fetcher_run" | Settle nat "'e + 't list"

fun step ::
  "BatcherScheduler \<Rightarrow> ('q, 't, 'e) event \<Rightarrow> ('q, 't, 'e) batcher \<Rightarrow> ('q, 't, 'e) batcher" where
  "step sched (Fetch now query) w = fetch sched now query w"
| "step sched (Expire h does) w =
     (case List.find (\<lambda>tm. handle tm = h) (timers w) of
        None \<Rightarrow> w
      | Some tm \<Rightarrow>
          timer_callback sched (expiry tm) does
            (w \<lparr> timers := filter (\<lambda>tm. handle tm \<noteq> h) (timers w) \<rparr>))"
| "step sched (Settle i result) w = settle i result w"

definition exec ::
  "BatcherScheduler \<Rightarrow> ('q, 't, 'e) event list \<Rightarrow> ('q, 't, 'e) batcher \<Rightarrow> ('q, 't, 'e) batcher" where
  "exec sched evs w = foldl (\<lambda>w ev. step sched ev w) w evs"

text \<open>
  The event loop with a clock, for a fetcher that returns its promise and makes no call
  of \<open>fetch\<close> while it runs: a call made at time \<open>t\<close> finds every timer that expired
  before \<open>t\<close> already run, the earlier expiry first. \<open>run\<close> makes the given calls in
  order, \<open>drain\<close> lets the clock pass every expiry.
\<close>

definition expire_all ::
  "BatcherScheduler \<Rightarrow> timeout list \<Rightarrow> ('q, 't, 'e) batcher \<Rightarrow> ('q, 't, 'e) batcher" where
  "expire_all sched due w =
     foldl (\<lambda>w tm. step sched (Expire (handle tm) (Returns [])) w) w (sort_key expiry due)"

definition advance ::
  "BatcherScheduler \<Rightarrow> int \<Rightarrow> ('q, 't, 'e) batcher \<Rightarrow> ('q, 't, 'e) batcher" where
  "advance sched t w = expire_all sched (filter (\<lambda>tm. expiry tm < t) (timers w)) w"

definition call ::
  "BatcherScheduler \<Rightarrow> int \<times> 'q \<Rightarrow> ('q, 't, 'e) batcher \<Rightarrow> ('q, 't, 'e) batcher" where
  "call sched c w = fetch sched (fst c) (snd c) (advance sched (fst c) w)"

definition run ::
  "BatcherScheduler \<Rightarrow> (int \<times> 'q) list \<Rightarrow> ('q, 't, 'e) batcher \<Rightarrow> ('q, 't, 'e) batcher" where
  "run sched calls w = foldl (\<lambda>w c. call sched c w) w calls"

definition drain :: "BatcherScheduler \<Rightarrow> ('q, 't, 'e) batcher \<Rightarrow> ('q, 't, 'e) batcher" where
  "drain sched w = expire_all sched (timers w) w"

subsection \<open>Notions used in the statements\<close>

text \<open>The order in which the elements of a list first occur in it.\<close>

fun first_occurrences :: "'q list \<Rightarrow> 'q list" where
  "first_occurrences [] = []"
| "first_occurrences (q # qs) = q # filter (\<lambda>x. x \<noteq> q) (first_occurrences qs)"

text \<open>The queries of the promises chained from deferred \<open>r\<close>, each at its first call.\<close>

definition batch_of :: "nat \<Rightarrow> 'q promise list \<Rightarrow> 'q list" where
  "batch_of r ps = first_occurrences (map asked (filter (\<lambda>p. chained_from p = r) ps))"

text \<open>The calls of one window as events.\<close>

definition fetches :: "(int \<times> 'q) list \<Rightarrow> ('q, 't, 'e) event list" where
  "fetches calls = map (\<lambda>c. Fetch (fst c) (snd c)) calls"

text \<open>
  One batch window: the given calls, then the expiry of the timer that \<open>timer\<close> holds
  after them, with the fetcher doing \<open>does\<close>.
\<close>

definition window ::
  "BatcherScheduler \<Rightarrow> (int \<times> 'q) list \<Rightarrow> 'q fetcher_run \<Rightarrow> ('q, 't, 'e) batcher
     \<Rightarrow> ('q, 't, 'e) batcher" where
  "window sched calls does w =
     (let w' = exec sched (fetches calls) w
      in case timer w' of None \<Rightarrow> w' | Some h \<Rightarrow> step sched (Expire h does) w')"

text \<open>
  The input of the test "custom resolver": four posts, two query objects
  \<open>{authorId: 1}\<close> and \<open>{authorId: 2}\<close> (objects 1 and 2, \<open>author_of\<close> reads their
  \<open>authorId\<close>), and the configuration with
  \<open>resolver: (posts, query) => posts.filter((post) => post.authorId === query.authorId)\<close>
  and no \<open>equality\<close>.
\<close>

definition example_posts :: "item list" where
  "example_posts =
     [[(''id'', JNum 1), (''title'', JStr ''Hello''), (''authorId'', JNum 1)],
      [(''id'', JNum 2), (''title'', JStr ''World''), (''authorId'', JNum 1)],
      [(''id'', JNum 3), (''title'', JStr ''Hello''), (''authorId'', JNum 2)],
      [(''id'', JNum 4), (''title'', JStr ''World''), (''authorId'', JNum 2)]]"

definition author_of :: "jsval \<Rightarrow> jsval" where
  "author_of query =
     (if query = JObj 1 then JNum 1 else if query = JObj 2 then JNum 2 else JUndefined)"

definition posts_of_author :: "item list \<Rightarrow> jsval \<Rightarrow> item list" where
  "posts_of_author posts query =
     filter (\<lambda>post. strict_eq (field post ''authorId'') (author_of query)) posts"

definition resolver_config :: "item list BatcherConfig" where
  "resolver_config =
     \<lparr> scheduler = Some (windowScheduler 10), equality = Missing,
       resolver = Some posts_of_author \<rparr>"

text \<open>The events that settle the promise of the \<open>i\<close>-th fetcher call.\<close>

fun settles :: "nat \<Rightarrow> ('q, 't, 'e) event \<Rightarrow> bool" where
  "settles i (Settle j _) = (j = i)"
| "settles i _ = False"

text \<open>The events in which the fetcher calls \<open>fetch\<close> while it runs.\<close>

fun reentrant :: "('q, 't, 'e) event \<Rightarrow> bool" where
  "reentrant (Expire _ does) = (calls_of does \<noteq> [])"
| "reentrant _ = False"

text \<open>Two states that differ at most in the deferred \<open>r\<close>.\<close>

definition same_but :: "nat \<Rightarrow> ('q, 't, 'e) batcher \<Rightarrow> ('q, 't, 'e) batcher \<Rightarrow> bool" where
  "same_but r a b \<longleftrightarrow>
     seq a = seq b \<and> batch a = batch b \<and> currentRequest a = currentRequest b \<and>
     timer a = timer b \<and> start a = start b \<and> latest a = latest b \<and>
     timers a = timers b \<and> next_handle a = next_handle b \<and>
     invocations a = invocations b \<and> promises a = promises b \<and>
     length (deferreds a) = length (deferreds b) \<and>
     (\<forall>c < length (deferreds a). c \<noteq> r \<longrightarrow> deferreds a ! c = deferreds b ! c)"

text \<open>
  What holds of every state a batcher can be in. The current deferred is the last one
  created and is pending. A fetcher call that returned its promise saved a deferred
  created earlier, no two calls the same one, and was given the queries of the promises
  chained from that deferred up to some moment, each at its first call. No promise is
  chained from a deferred not yet created, and the pending set holds the queries of the
  promises chained from the current deferred.
\<close>

definition consistent :: "('q, 't, 'e) batcher \<Rightarrow> bool" where
  "consistent w \<longleftrightarrow>
     length (deferreds w) = Suc (currentRequest w) \<and>
     deferreds w ! currentRequest w = Pending \<and>
     (\<forall>i < length (invocations w). \<forall>r. request (invocations w ! i) = Some r \<longrightarrow>
        r < currentRequest w \<and>
        (\<exists>n \<le> length (promises w).
           queries (invocations w ! i) = batch_of r (take n (promises w)))) \<and>
     (\<forall>i < length (invocations w). \<forall>j < length (invocations w). \<forall>r.
        request (invocations w ! i) = Some r \<longrightarrow>
        request (invocations w ! j) = Some r \<longrightarrow> i = j) \<and>
     (\<forall>p \<in> set (promises w). chained_from p \<le> currentRequest w) \<and>
     batch w = batch_of (currentRequest w) (promises w)"

text \<open>
  What holds in addition as long as no fetcher has called \<open>fetch\<close> while it ran: the
  only timer armed, if any, is the one \<open>timer\<close> holds, it is armed over a non-empty
  pending set, and no fetcher call was given an empty list.
\<close>

definition single_timer :: "('q, 't, 'e) batcher \<Rightarrow> bool" where
  "single_timer w \<longleftrightarrow>
     (\<forall>tm \<in> set (timers w). timer w = Some (handle tm)) \<and>
     (timers w \<noteq> [] \<longrightarrow> batch w \<noteq> []) \<and>
     (\<forall>inv \<in> set (invocations w). queries inv \<noteq> [])"

section \<open>Basic facts\<close>

lemma default_scheduler:
  "config_scheduler \<lparr> scheduler = None, equality = e, resolver = r \<rparr> = windowScheduler 10"
  by (simp add: config_scheduler_def)

lemma exec_Nil [simp]: "exec sched [] w = w"
  by (simp add: exec_def)

lemma exec_Cons [simp]: "exec sched (ev # evs) w = exec sched evs (step sched ev w)"
  by (simp add: exec_def)

lemma exec_append: "exec sched (evs @ evs') w = exec sched evs' (exec sched evs w)"
  by (simp add: exec_def)

lemma nested_simps [simp]:
  "nested sched [] w = w"
  "nested sched (c # cs) w = nested sched cs (fetch sched (fst c) (snd c) w)"
  by (simp_all add: nested_def)

lemma set_first_occurrences [simp]: "set (first_occurrences qs) = set qs"
  by (induction qs) auto

lemma distinct_first_occurrences [simp]: "distinct (first_occurrences qs)"
  by (induction qs) auto

lemma first_occurrences_snoc:
  "first_occurrences (qs @ [q]) = set_add (first_occurrences qs) q"
  by (induction qs) (auto simp: set_add_def)

lemma foldl_set_add:
  "foldl set_add (first_occurrences qs) qs' = first_occurrences (qs @ qs')"
proof (induction qs' arbitrary: qs)
  case Nil
  show ?case by simp
next
  case (Cons q qs')
  have "foldl set_add (first_occurrences qs) (q # qs')
          = foldl set_add (first_occurrences (qs @ [q])) qs'"
    by (simp add: first_occurrences_snoc)
  also have "\<dots> = first_occurrences ((qs @ [q]) @ qs')"
    by (rule Cons.IH)
  finally show ?case by simp
qed

lemma foldl_set_add_Nil: "foldl set_add [] qs = first_occurrences qs"
  using foldl_set_add [of "[]" qs] by simp

lemma first_occurrences_remdups: "first_occurrences qs = rev (remdups (rev qs))"
  by (induction qs rule: rev_induct) (auto simp: first_occurrences_snoc set_add_def)

lemma count_list_distinct:
  "distinct xs \<Longrightarrow> x \<in> set xs \<Longrightarrow> count_list xs x = 1"
  by (induction xs) auto

lemma batch_of_snoc:
  "batch_of r (ps @ [p]) =
     (if chained_from p = r then set_add (batch_of r ps) (asked p) else batch_of r ps)"
  by (simp add: batch_of_def first_occurrences_snoc)

lemma batch_of_fresh:
  assumes "\<forall>p \<in> set ps. chained_from p \<le> c" and "c < r"
  shows "batch_of r ps = []"
proof -
  have "filter (\<lambda>p. chained_from p = r) ps = []"
    using assms by (auto simp: filter_empty_conv)
  then show ?thesis by (simp add: batch_of_def)
qed

text \<open>What \<open>fetch\<close> changes and what it leaves.\<close>

lemma fetch_frame [simp]:
  "invocations (fetch sched now q w) = invocations w"
  "deferreds (fetch sched now q w) = deferreds w"
  "currentRequest (fetch sched now q w) = currentRequest w"
  "seq (fetch sched now q w) = seq w"
  by (simp_all add: fetch_def Let_def)

lemma fetch_fields:
  "batch (fetch sched now q w) = set_add (batch w) q"
  "promises (fetch sched now q w)
     = promises w @ [\<lparr> chained_from = currentRequest w, asked = q \<rparr>]"
  "timer (fetch sched now q w) = Some (next_handle w)"
  "next_handle (fetch sched now q w) = Suc (next_handle w)"
  "latest (fetch sched now q w) = Some now"
  "start (fetch sched now q w) =
     Some (case start w of None \<Rightarrow> now | Some s \<Rightarrow> if s = 0 then now else s)"
  "timers (fetch sched now q w) =
     clearTimeout (timer w) (timers w) @
       [\<lparr> handle = next_handle w, armed_at = now,
          delay = sched (case start w of None \<Rightarrow> now | Some s \<Rightarrow> if s = 0 then now else s) now \<rparr>]"
  by (simp_all add: fetch_def Let_def)

lemma nested_frame [simp]:
  "invocations (nested sched cs w) = invocations w"
  "deferreds (nested sched cs w) = deferreds w"
  "currentRequest (nested sched cs w) = currentRequest w"
  "seq (nested sched cs w) = seq w"
  by (induction cs arbitrary: w) simp_all

lemma nested_batch:
  "batch (nested sched cs w) = foldl set_add (batch w) (map snd cs)"
  by (induction cs arbitrary: w) (simp_all add: fetch_fields)

lemma nested_promises:
  "promises (nested sched cs w) =
     promises w @ map (\<lambda>c. \<lparr> chained_from = currentRequest w, asked = snd c \<rparr>) cs"
  by (induction cs arbitrary: w) (simp_all add: fetch_fields)

lemma nested_append: "nested sched (cs @ cs') w = nested sched cs' (nested sched cs w)"
  by (simp add: nested_def)

lemma fetch_armed:
  "\<exists>tm. List.find (\<lambda>tm. handle tm = next_handle w) (timers (fetch sched now q w)) = Some tm"
proof -
  have "List.find (\<lambda>tm. handle tm = next_handle w) (timers (fetch sched now q w)) \<noteq> None"
    by (auto simp: find_None_iff fetch_fields)
  then show ?thesis by blast
qed

lemma nested_armed:
  assumes "cs \<noteq> []"
  shows "\<exists>h tm. timer (nested sched cs w) = Some h \<and>
           List.find (\<lambda>tm. handle tm = h) (timers (nested sched cs w)) = Some tm"
proof -
  obtain cs' c where cs: "cs = cs' @ [c]"
    using assms by (cases cs rule: rev_cases) auto
  show ?thesis
    using fetch_armed [of "nested sched cs' w" sched "fst c" "snd c"]
    by (simp add: cs nested_append fetch_fields)
qed

text \<open>The invariant.\<close>

lemma consistent_create: "consistent create"
  by (simp add: consistent_def create_def batch_of_def)

lemma consistent_fetch:
  assumes "consistent w"
  shows "consistent (fetch sched now q w)"
proof -
  have inv: "\<And>i r. i < length (invocations w) \<Longrightarrow> request (invocations w ! i) = Some r \<Longrightarrow>
           \<exists>n \<le> length (promises w) + 1.
             queries (invocations w ! i)
               = batch_of r (take n (promises w @ [\<lparr> chained_from = currentRequest w, asked = q \<rparr>]))"
  proof -
    fix i r
    assume "i < length (invocations w)" and "request (invocations w ! i) = Some r"
    then obtain n where "n \<le> length (promises w)"
        and "queries (invocations w ! i) = batch_of r (take n (promises w))"
      using assms unfolding consistent_def by blast
    then show "\<exists>n \<le> length (promises w) + 1.
             queries (invocations w ! i)
               = batch_of r (take n (promises w @ [\<lparr> chained_from = currentRequest w, asked = q \<rparr>]))"
      by (intro exI [of _ n]) simp
  qed
  show ?thesis
    using assms inv
    unfolding consistent_def
    by (simp add: fetch_fields batch_of_snoc)
qed

lemma consistent_nested: "consistent w \<Longrightarrow> consistent (nested sched cs w)"
  by (induction cs arbitrary: w) (simp_all add: consistent_fetch)

lemma consistent_timers [simp]: "consistent (w \<lparr> timers := tms \<rparr>) = consistent w"
  by (simp add: consistent_def)

lemma consistentD:
  assumes "consistent w"
  shows "length (deferreds w) = Suc (currentRequest w)"
    and "deferreds w ! currentRequest w = Pending"
    and "\<And>p. p \<in> set (promises w) \<Longrightarrow> chained_from p \<le> currentRequest w"
    and "batch w = batch_of (currentRequest w) (promises w)"
  using assms unfolding consistent_def by auto

lemma consistent_invocation:
  assumes "consistent w" and "i < length (invocations w)"
    and "request (invocations w ! i) = Some r"
  shows "r < currentRequest w"
    and "r < length (deferreds w)"
    and "\<exists>n \<le> length (promises w). queries (invocations w ! i) = batch_of r (take n (promises w))"
  using assms unfolding consistent_def by auto

lemma consistent_request_inj:
  assumes "consistent w" and "i < length (invocations w)" and "j < length (invocations w)"
    and "request (invocations w ! i) = Some r" and "request (invocations w ! j) = Some r"
  shows "i = j"
  using assms unfolding consistent_def by blast

lemma consistent_throws:
  assumes "consistent w"
  shows "consistent (w \<lparr> invocations := invocations w @
            [\<lparr> fired_at = now, currentSeq = s, queries = qs, request = None \<rparr>] \<rparr>)"
  using assms unfolding consistent_def
  by (auto simp: nth_append less_Suc_eq)

lemma consistent_returns:
  assumes "consistent w" and "n \<le> length (promises w)"
    and "qs = batch_of (currentRequest w) (take n (promises w))"
  shows "consistent (w \<lparr> invocations := invocations w @
            [\<lparr> fired_at = now, currentSeq = s, queries = qs,
               request = Some (currentRequest w) \<rparr>],
          batch := [],
          deferreds := deferreds w @ [Pending],
          currentRequest := length (deferreds w),
          timer := None,
          start := None,
          latest := None,
          seq := Suc (seq w) \<rparr>)"
proof -
  have len: "length (deferreds w) = Suc (currentRequest w)"
    by (rule consistentD(1) [OF assms(1)])
  have fresh: "batch_of (Suc (currentRequest w)) (promises w) = []"
    using consistentD(3) [OF assms(1)]
    by (intro batch_of_fresh [where c = "currentRequest w"]) auto
  have old: "\<And>i r. i < length (invocations w) \<Longrightarrow> request (invocations w ! i) = Some r \<Longrightarrow>
               r < currentRequest w \<and>
               (\<exists>n \<le> length (promises w).
                  queries (invocations w ! i) = batch_of r (take n (promises w)))"
    using consistent_invocation [OF assms(1)] by blast
  have inj: "\<And>i j r. i < length (invocations w) \<Longrightarrow> j < length (invocations w) \<Longrightarrow>
               request (invocations w ! i) = Some r \<Longrightarrow>
               request (invocations w ! j) = Some r \<Longrightarrow> i = j"
    using consistent_request_inj [OF assms(1)] by blast
  have le: "\<And>p. p \<in> set (promises w) \<Longrightarrow> chained_from p \<le> currentRequest w"
    by (rule consistentD(3) [OF assms(1)])
  show ?thesis
    unfolding consistent_def
    using len fresh old inj le assms(2,3)
    by (auto simp: nth_append less_Suc_eq le_Suc_eq split: if_splits)
qed

lemma consistent_timer_callback:
  assumes "consistent w"
  shows "consistent (timer_callback sched now does w)"
proof -
  let ?w1 = "nested sched (calls_of does) w"
  have c1: "consistent ?w1"
    by (rule consistent_nested [OF assms])
  show ?thesis
  proof (cases does)
    case (Throws cs)
    then show ?thesis
      using consistent_throws [OF c1] by (simp add: timer_callback_def)
  next
    case (Returns cs)
    have n: "length (promises w) \<le> length (promises ?w1)"
      by (simp add: nested_promises)
    have "batch w = batch_of (currentRequest w) (promises w)"
      by (rule consistentD(4) [OF assms])
    then have qs: "batch w = batch_of (currentRequest ?w1) (take (length (promises w)) (promises ?w1))"
      by (simp add: nested_promises)
    show ?thesis
      using consistent_returns [OF c1 n qs, of now "seq w"] Returns
      by (simp add: timer_callback_def)
  qed
qed

lemma consistent_settle: "consistent w \<Longrightarrow> consistent (settle i res w)"
  unfolding consistent_def
  by (auto simp: settle_def nth_list_update split: option.splits)

lemma consistent_step: "consistent w \<Longrightarrow> consistent (step sched ev w)"
  by (cases ev)
     (auto simp: consistent_fetch consistent_timer_callback consistent_settle
           split: option.splits)

lemma consistent_exec: "consistent w \<Longrightarrow> consistent (exec sched evs w)"
  by (induction evs arbitrary: w) (simp_all add: consistent_step)

lemma consistent_reachable: "consistent (exec sched evs create)"
  by (rule consistent_exec [OF consistent_create])

text \<open>A window of calls with no expiry in between.\<close>

lemma fetches_simps [simp]:
  "fetches [] = []"
  "fetches (c # cs) = Fetch (fst c) (snd c) # fetches cs"
  "fetches (cs @ cs') = fetches cs @ fetches cs'"
  by (simp_all add: fetches_def)

lemma exec_fetches: "exec sched (fetches cs) w = nested sched cs w"
  by (induction cs arbitrary: w) simp_all

lemma timer_callback_invocations:
  "invocations (timer_callback sched now does w) =
     invocations w @
       [\<lparr> fired_at = now, currentSeq = seq w, queries = batch w,
          request = (case does of Returns _ \<Rightarrow> Some (currentRequest w) | Throws _ \<Rightarrow> None) \<rparr>]"
  by (cases does) (simp_all add: timer_callback_def)

lemma window_invocations:
  assumes "calls \<noteq> []"
  shows "\<exists>t. invocations (window sched calls does w) =
     invocations w @
       [\<lparr> fired_at = t, currentSeq = seq w,
          queries = foldl set_add (batch w) (map snd calls),
          request = (case does of Returns _ \<Rightarrow> Some (currentRequest w) | Throws _ \<Rightarrow> None) \<rparr>]"
proof -
  obtain h tm where "timer (nested sched calls w) = Some h"
      and "List.find (\<lambda>tm. handle tm = h) (timers (nested sched calls w)) = Some tm"
    using nested_armed [OF assms] by blast
  then show ?thesis
    by (cases does)
       (simp_all add: window_def Let_def exec_fetches timer_callback_invocations nested_batch)
qed

lemma last_invocation_after_window:
  assumes "batch w = []" and "calls \<noteq> []"
  shows "butlast (invocations (window sched calls does w)) = invocations w"
    and "queries (last (invocations (window sched calls does w)))
           = first_occurrences (map snd calls)"
    and "currentSeq (last (invocations (window sched calls does w))) = seq w"
proof -
  obtain t where "invocations (window sched calls does w) =
     invocations w @
       [\<lparr> fired_at = t, currentSeq = seq w,
          queries = foldl set_add (batch w) (map snd calls),
          request = (case does of Returns _ \<Rightarrow> Some (currentRequest w) | Throws _ \<Rightarrow> None) \<rparr>]"
    using window_invocations [OF assms(2)] by blast
  then show
    "butlast (invocations (window sched calls does w)) = invocations w"
    "queries (last (invocations (window sched calls does w))) = first_occurrences (map snd calls)"
    "currentSeq (last (invocations (window sched calls does w))) = seq w"
    using assms(1) by (simp_all add: foldl_set_add_Nil)
qed

text \<open>Settling one fetcher call.\<close>

lemma deref_unallocated: "deref ds (length ds) = Pending"
  by (simp add: deref_def)

lemma settle_promises [simp]: "promises (settle i r w) = promises w"
  by (simp add: settle_def split: option.splits)

lemma settle_pending:
  assumes "consistent w" and "i < length (invocations w)"
    and "request (invocations w ! i) = Some r"
    and "deref (deferreds w) r = Pending"
  shows "deref (deferreds (settle i res w)) r
           = (case res of Inr data \<Rightarrow> Resolved data | Inl error \<Rightarrow> Rejected error)"
proof -
  have len: "r < length (deferreds w)"
    by (rule consistent_invocation(2) [OF assms(1,2,3)])
  then have "deferreds w ! r = Pending"
    using assms(4) by (simp add: deref_def)
  then show ?thesis
    using assms(2,3) len by (simp add: settle_def deref_def split: sum.splits)
qed

lemma settle_once:
  assumes "consistent w" and "i < length (invocations w)"
    and "request (invocations w ! i) = Some r"
    and "deref (deferreds w) r = Pending"
  shows "settle i res' (settle i res w) = settle i res w"
proof -
  have len: "r < length (deferreds w)"
    by (rule consistent_invocation(2) [OF assms(1,2,3)])
  then have "deferreds w ! r = Pending"
    using assms(4) by (simp add: deref_def)
  then show ?thesis
    using assms(2,3) len
    by (cases res; cases res') (simp_all add: settle_def list_update_same_conv)
qed

lemma settled_outcome:
  assumes "consistent w" and "i < length (invocations w)"
    and "request (invocations w ! i) = Some r"
    and "deref (deferreds w) r = Pending"
    and "chained_from p = r"
  shows "promise_outcome eq (settle i res w) p
           = (case res of
                Inr data \<Rightarrow> Fulfilled (List.find (\<lambda>item. eq item (asked p)) data)
              | Inl error \<Rightarrow> Failed error)"
  using settle_pending [OF assms(1,2,3,4), of res]
  by (simp add: promise_outcome_def assms(5) split: sum.splits)


text \<open>Settling one fetcher call leaves everything but its deferred alone.\<close>

lemma same_but_refl: "same_but r w w"
  by (simp add: same_but_def)

lemma same_but_fetch:
  "same_but r a b \<Longrightarrow> same_but r (fetch sched now q a) (fetch sched now q b)"
  by (simp add: same_but_def fetch_def Let_def)

lemma same_but_nested:
  "same_but r a b \<Longrightarrow> same_but r (nested sched cs a) (nested sched cs b)"
  by (induction cs arbitrary: a b) (simp_all add: same_but_fetch)

lemma same_but_timers:
  "same_but r a b \<Longrightarrow> same_but r (a \<lparr> timers := tms \<rparr>) (b \<lparr> timers := tms \<rparr>)"
  by (simp add: same_but_def)

lemma same_but_timer_callback:
  assumes "same_but r a b"
  shows "same_but r (timer_callback sched now does a) (timer_callback sched now does b)"
proof -
  have "same_but r (nested sched (calls_of does) a) (nested sched (calls_of does) b)"
    by (rule same_but_nested [OF assms])
  moreover have "seq a = seq b" and "batch a = batch b"
    using assms by (simp_all add: same_but_def)
  ultimately show ?thesis
    by (cases does) (simp_all add: same_but_def timer_callback_def nth_append)
qed

lemma same_but_settle_other:
  assumes "same_but r a b"
    and "j < length (invocations a) \<Longrightarrow> request (invocations a ! j) \<noteq> Some r"
  shows "same_but r (settle j res a) (settle j res b)"
proof (cases "j < length (invocations a)")
  case False
  then show ?thesis
    using assms(1) by (simp add: same_but_def settle_def)
next
  case True
  show ?thesis
  proof (cases "request (invocations a ! j)")
    case None
    then show ?thesis
      using assms(1) by (simp add: same_but_def settle_def)
  next
    case (Some c)
    then have ne: "c \<noteq> r"
      using assms(2) True by simp
    have cell: "c < length (deferreds a) \<Longrightarrow> deferreds a ! c = deferreds b ! c"
      using assms(1) ne by (simp add: same_but_def)
    show ?thesis
      using assms(1) True Some ne cell
      by (auto simp: same_but_def settle_def nth_list_update split: sum.splits)
  qed
qed

lemma same_but_settle_self:
  assumes "same_but r a b" and "request (invocations a ! i) = Some r"
  shows "same_but r (settle i res a) b"
  using assms by (auto simp: same_but_def settle_def nth_list_update)

lemma step_invocations:
  "\<exists>more. invocations (step sched ev w) = invocations w @ more"
  by (cases ev)
     (auto simp: timer_callback_invocations settle_def split: option.splits)

lemma step_keeps_invocation:
  assumes "i < length (invocations w)"
  shows "i < length (invocations (step sched ev w))"
    and "invocations (step sched ev w) ! i = invocations w ! i"
proof -
  obtain more where "invocations (step sched ev w) = invocations w @ more"
    using step_invocations by blast
  then show "i < length (invocations (step sched ev w))"
    and "invocations (step sched ev w) ! i = invocations w ! i"
    using assms by (simp_all add: nth_append)
qed

lemma same_but_step:
  assumes "same_but r a b" and "consistent a"
    and "i < length (invocations a)" and "request (invocations a ! i) = Some r"
    and "\<not> settles i ev"
  shows "same_but r (step sched ev a) (step sched ev b)"
proof (cases ev)
  case (Fetch now q)
  then show ?thesis using assms(1) by (simp add: same_but_fetch)
next
  case (Expire h does)
  have "timers a = timers b" using assms(1) by (simp add: same_but_def)
  then show ?thesis
    using assms(1) Expire
    by (simp add: same_but_timer_callback same_but_timers split: option.splits)
next
  case (Settle j res)
  then have "j \<noteq> i" using assms(5) by simp
  then have "j < length (invocations a) \<Longrightarrow> request (invocations a ! j) \<noteq> Some r"
    using consistent_request_inj [OF assms(2) assms(3) _ assms(4)] by blast
  then show ?thesis
    using Settle assms(1) by (simp add: same_but_settle_other)
qed

lemma same_but_exec:
  assumes "same_but r a b" and "consistent a"
    and "i < length (invocations a)" and "request (invocations a ! i) = Some r"
  shows "same_but r (exec sched evs a) (exec sched (filter (\<lambda>ev. \<not> settles i ev) evs) b)"
  using assms
proof (induction evs arbitrary: a b)
  case Nil
  then show ?case by simp
next
  case (Cons ev evs)
  show ?case
  proof (cases "settles i ev")
    case True
    then obtain res where ev: "ev = Settle i res"
      by (cases ev) auto
    have "same_but r (settle i res a) b"
      by (rule same_but_settle_self [OF Cons.prems(1,4)])
    moreover have "consistent (settle i res a)"
      by (rule consistent_settle [OF Cons.prems(2)])
    moreover have "i < length (invocations (settle i res a))"
      and "request (invocations (settle i res a) ! i) = Some r"
      using Cons.prems(3,4) by (simp_all add: settle_def)
    ultimately show ?thesis
      using Cons.IH [of "settle i res a" b] ev by simp
  next
    case False
    have "same_but r (step sched ev a) (step sched ev b)"
      by (rule same_but_step [OF Cons.prems False])
    moreover have "consistent (step sched ev a)"
      by (rule consistent_step [OF Cons.prems(2)])
    moreover have "i < length (invocations (step sched ev a))"
      and "request (invocations (step sched ev a) ! i) = Some r"
      using step_keeps_invocation [OF Cons.prems(3)] Cons.prems(4) by simp_all
    ultimately show ?thesis
      using Cons.IH [of "step sched ev a" "step sched ev b"] False by simp
  qed
qed

lemma same_but_outcome:
  assumes "same_but r a b" and "chained_from p \<noteq> r"
  shows "promise_outcome eq a p = promise_outcome eq b p"
proof -
  have "deref (deferreds a) (chained_from p) = deref (deferreds b) (chained_from p)"
    using assms by (simp add: same_but_def deref_def)
  then show ?thesis by (simp add: promise_outcome_def)
qed


text \<open>Promises are only ever added, and chained from the deferred current at that time.\<close>

lemma timer_callback_promises:
  "promises (timer_callback sched now does w) =
     promises w @ map (\<lambda>c. \<lparr> chained_from = currentRequest w, asked = snd c \<rparr>) (calls_of does)"
  by (cases does) (simp_all add: timer_callback_def nested_promises)

lemma step_promises:
  "\<exists>ps. promises (step sched ev w) = promises w @ ps \<and>
        (\<forall>p \<in> set ps. chained_from p = currentRequest w)"
  by (cases ev) (auto simp: fetch_fields timer_callback_promises split: option.splits)

lemma timer_callback_currentRequest:
  "consistent w \<Longrightarrow> currentRequest w \<le> currentRequest (timer_callback sched now does w)"
  by (cases does) (simp_all add: timer_callback_def consistent_def)

lemma step_currentRequest:
  "consistent w \<Longrightarrow> currentRequest w \<le> currentRequest (step sched ev w)"
proof (cases ev)
  case (Expire h does)
  assume "consistent w"
  then have "consistent (w \<lparr> timers := filter (\<lambda>tm. handle tm \<noteq> h) (timers w) \<rparr>)"
    by simp
  from timer_callback_currentRequest [OF this] show ?thesis
    using Expire by (simp split: option.splits)
qed (simp_all add: settle_def split: option.splits)

lemma exec_promises:
  assumes "consistent w"
  shows "\<exists>ps. promises (exec sched evs w) = promises w @ ps \<and>
        (\<forall>p \<in> set ps. currentRequest w \<le> chained_from p)"
  using assms
proof (induction evs arbitrary: w)
  case Nil
  then show ?case by simp
next
  case (Cons ev evs)
  obtain ps where ps: "promises (step sched ev w) = promises w @ ps"
      "\<forall>p \<in> set ps. chained_from p = currentRequest w"
    using step_promises [of sched ev w] by blast
  have "consistent (step sched ev w)"
    by (rule consistent_step [OF Cons.prems])
  from Cons.IH [OF this]
  obtain ps' where ps': "promises (exec sched evs (step sched ev w)) = promises (step sched ev w) @ ps'"
      "\<forall>p \<in> set ps'. currentRequest (step sched ev w) \<le> chained_from p"
    by blast
  have "\<forall>p \<in> set (ps @ ps'). currentRequest w \<le> chained_from p"
    using ps(2) ps'(2) step_currentRequest [OF Cons.prems, of sched ev] by fastforce
  then show ?case
    using ps(1) ps'(1) by (intro exI [of _ "ps @ ps'"]) simp
qed

lemma later_promises:
  assumes "consistent w" and "p \<in> set (drop (length (promises w)) (promises (exec sched evs w)))"
  shows "currentRequest w \<le> chained_from p"
proof -
  obtain ps where "promises (exec sched evs w) = promises w @ ps"
      "\<forall>p \<in> set ps. currentRequest w \<le> chained_from p"
    using exec_promises [OF assms(1)] by blast
  then show ?thesis using assms(2) by simp
qed

text \<open>As long as no fetcher calls \<open>fetch\<close> while it runs, one timer at most is armed.\<close>

lemma single_timer_create: "single_timer create"
  by (simp add: single_timer_def create_def)

lemma single_timer_cleared:
  assumes "single_timer w"
  shows "clearTimeout (timer w) (timers w) = []"
proof (cases "timer w")
  case None
  then have "timers w = []"
    using assms by (cases "timers w") (auto simp: single_timer_def)
  then show ?thesis using None by simp
next
  case (Some h)
  then have "\<forall>tm \<in> set (timers w). handle tm = h"
    using assms by (auto simp: single_timer_def)
  then show ?thesis
    using Some by (simp add: filter_empty_conv)
qed

lemma set_add_not_Nil [simp]: "set_add xs q \<noteq> []"
  by (auto simp: set_add_def)

lemma single_timer_fetch:
  assumes "single_timer w"
  shows "single_timer (fetch sched now q w)"
  using assms single_timer_cleared [OF assms]
  by (simp add: single_timer_def fetch_fields)

lemma single_timer_expire:
  assumes "single_timer w" and "calls_of does = []"
  shows "single_timer (step sched (Expire h does) w)"
proof (cases "List.find (\<lambda>tm. handle tm = h) (timers w)")
  case None
  then show ?thesis using assms(1) by simp
next
  case (Some tm)
  then have tm: "tm \<in> set (timers w)" and h: "handle tm = h"
    by (auto simp: find_Some_iff)
  then have var: "timer w = Some h"
    using assms(1) by (auto simp: single_timer_def)
  then have rest: "filter (\<lambda>tm. handle tm \<noteq> h) (timers w) = []"
    using single_timer_cleared [OF assms(1)] by simp
  have batch: "batch w \<noteq> []"
    using assms(1) tm by (auto simp: single_timer_def)
  have old: "\<forall>inv \<in> set (invocations w). queries inv \<noteq> []"
    using assms(1) by (simp add: single_timer_def)
  show ?thesis
    using Some rest batch old assms(2)
    by (cases does) (simp_all add: single_timer_def timer_callback_def)
qed

lemma single_timer_settle: "single_timer w \<Longrightarrow> single_timer (settle i res w)"
  by (simp add: single_timer_def settle_def split: option.splits)

lemma single_timer_step:
  assumes "single_timer w" and "\<not> reentrant ev"
  shows "single_timer (step sched ev w)"
proof (cases ev)
  case (Fetch now q)
  then show ?thesis using single_timer_fetch [OF assms(1)] by simp
next
  case (Expire h does)
  then show ?thesis using single_timer_expire [OF assms(1)] assms(2) by simp
next
  case (Settle i res)
  then show ?thesis using single_timer_settle [OF assms(1)] by simp
qed

lemma single_timer_exec:
  assumes "single_timer w" and "\<forall>ev \<in> set evs. \<not> reentrant ev"
  shows "single_timer (exec sched evs w)"
  using assms by (induction evs arbitrary: w) (simp_all add: single_timer_step)

text \<open>The fetcher is never given an empty list unless some fetcher called \<open>fetch\<close> while it ran.\<close>

lemma never_empty_without_reentrancy:
  assumes "\<forall>ev \<in> set evs. \<not> reentrant ev"
  shows "\<forall>inv \<in> set (invocations (exec sched evs create)). queries inv \<noteq> []"
  using single_timer_exec [OF single_timer_create assms] by (simp add: single_timer_def)

text \<open>The event loop with a clock.\<close>

lemma run_simps [simp]:
  "run sched [] w = w"
  "run sched (c # cs) w = run sched cs (call sched c w)"
  by (simp_all add: run_def)

lemma expire_all_Nil [simp]: "expire_all sched [] w = w"
  by (simp add: expire_all_def)

lemma expire_all_single [simp]:
  "expire_all sched [tm] w = step sched (Expire (handle tm) (Returns [])) w"
  by (simp add: expire_all_def)

lemma advance_none_due:
  assumes "\<forall>tm \<in> set (timers w). t \<le> expiry tm"
  shows "advance sched t w = w"
proof -
  have "filter (\<lambda>tm. expiry tm < t) (timers w) = []"
    using assms by (auto simp: filter_empty_conv)
  then show ?thesis by (simp add: advance_def)
qed

text \<open>
  Timers run in the order of their expiry, not of their arming. With a scheduler whose
  delay grows with the time spent, the timer armed by a fetcher's own call (expiry 16)
  is outrun by the timer of the next call (expiry 12).
\<close>

lemma timers_run_in_time_order:
  "invocations (drain (\<lambda>start latest. 5 + (latest - start))
      (exec (\<lambda>start latest. 5 + (latest - start))
         [Fetch 1 1, Expire 0 (Returns [(6, 2)]), Fetch 7 3]
         (create :: (nat, unit, unit) batcher)))
     = [\<lparr> fired_at = 6, currentSeq = 0, queries = [1], request = Some 0 \<rparr>,
        \<lparr> fired_at = 12, currentSeq = 1, queries = [3], request = Some 1 \<rparr>,
        \<lparr> fired_at = 16, currentSeq = 2, queries = [], request = Some 2 \<rparr>]"
  by (simp add: create_def fetch_def timer_callback_def set_add_def expiry_def clamp_def
        TIMEOUT_MAX_def drain_def expire_all_def Let_def)

lemma clearTimeout_Nil [simp]: "clearTimeout h [] = []"
  by (cases h) simp_all

lemma clamp_in_range: "1 \<le> d \<Longrightarrow> d \<le> TIMEOUT_MAX \<Longrightarrow> clamp d = d"
  by (simp add: clamp_def)

lemma fetch_one_timer:
  assumes "timers w = [] \<or> (\<exists>tm. timers w = [tm] \<and> timer w = Some (handle tm))"
  shows "timers (fetch sched now q w) =
           [\<lparr> handle = next_handle w, armed_at = now,
              delay = sched (case start w of None \<Rightarrow> now | Some s \<Rightarrow> if s = 0 then now else s) now \<rparr>]"
  using assms by (auto simp: fetch_fields)

lemma fire_one_timer:
  assumes "timers w = [tm]"
  shows "invocations (drain sched w) =
           invocations w @
             [\<lparr> fired_at = expiry tm, currentSeq = seq w, queries = batch w,
                request = Some (currentRequest w) \<rparr>]"
  using assms by (simp add: drain_def timer_callback_invocations)

lemma run_in_window:
  assumes "start w = Some t0" and "t0 \<noteq> 0"
    and "timers w = [tm]" and "timer w = Some (handle tm)" and "expiry tm = t0 + ms"
    and "ms \<le> TIMEOUT_MAX"
    and "\<forall>c \<in> set cs. t0 \<le> fst c \<and> fst c < t0 + ms"
  shows "run (windowScheduler ms) cs w = nested (windowScheduler ms) cs w \<and>
         (\<exists>tm'. timers (run (windowScheduler ms) cs w) = [tm'] \<and> expiry tm' = t0 + ms)"
  using assms
proof (induction cs arbitrary: w tm)
  case Nil
  then show ?case by simp
next
  case (Cons c cs)
  let ?w = "fetch (windowScheduler ms) (fst c) (snd c) w"
  let ?tm = "\<lparr> handle = next_handle w, armed_at = fst c, delay = ms - (fst c - t0) \<rparr>"
  have "fst c \<le> expiry tm"
    using Cons.prems(5,7) by simp
  then have call: "call (windowScheduler ms) c w = ?w"
    using Cons.prems(3) by (simp add: call_def advance_none_due)
  have st: "start ?w = Some t0"
    using Cons.prems(1,2) by (simp add: fetch_fields)
  have tms: "timers ?w = [?tm]"
    using fetch_one_timer [of w "windowScheduler ms" "fst c" "snd c"] Cons.prems(1,2,3,4)
    by (simp add: windowScheduler_def)
  have var: "timer ?w = Some (handle ?tm)"
    by (simp add: fetch_fields)
  have "1 \<le> ms - (fst c - t0)" and "ms - (fst c - t0) \<le> TIMEOUT_MAX"
    using Cons.prems(6,7) by auto
  then have ex: "expiry ?tm = t0 + ms"
    by (simp add: expiry_def clamp_in_range)
  have "\<forall>c \<in> set cs. t0 \<le> fst c \<and> fst c < t0 + ms"
    using Cons.prems(7) by simp
  from Cons.IH [OF st Cons.prems(2) tms var ex Cons.prems(6) this] show ?case
    by (auto simp: call)
qed

lemma window_fires_at_deadline:
  assumes "timers w = []" and "start w = None" and "batch w = []"
    and "t0 \<noteq> 0" and "1 \<le> ms" and "ms \<le> TIMEOUT_MAX"
    and "\<forall>c \<in> set rest. t0 \<le> fst c \<and> fst c < t0 + ms"
  shows "invocations (drain (windowScheduler ms) (run (windowScheduler ms) ((t0, q0) # rest) w)) =
           invocations w @
             [\<lparr> fired_at = t0 + ms, currentSeq = seq w,
                queries = first_occurrences (q0 # map snd rest),
                request = Some (currentRequest w) \<rparr>]"
proof -
  let ?s = "windowScheduler ms"
  let ?w = "fetch ?s t0 q0 w"
  let ?tm = "\<lparr> handle = next_handle w, armed_at = t0, delay = ms \<rparr>"
  have call: "call ?s (t0, q0) w = ?w"
    using assms(1) by (simp add: call_def advance_none_due)
  have st: "start ?w = Some t0"
    using assms(2) by (simp add: fetch_fields)
  have tms: "timers ?w = [?tm]"
    using fetch_one_timer [of w ?s t0 q0] assms(1,2) by (simp add: windowScheduler_def)
  have var: "timer ?w = Some (handle ?tm)"
    by (simp add: fetch_fields)
  have ex: "expiry ?tm = t0 + ms"
    using assms(5,6) by (simp add: expiry_def clamp_in_range)
  from run_in_window [OF st assms(4) tms var ex assms(6,7)]
  obtain tm' where run: "run ?s rest ?w = nested ?s rest ?w"
    and tm': "timers (run ?s rest ?w) = [tm']" "expiry tm' = t0 + ms"
    by blast
  have all: "run ?s ((t0, q0) # rest) w = nested ?s ((t0, q0) # rest) w"
    by (simp add: call run)
  have one: "timers (run ?s ((t0, q0) # rest) w) = [tm']"
    using tm'(1) by (simp add: call)
  have sent: "batch (nested ?s ((t0, q0) # rest) w) = first_occurrences (q0 # map snd rest)"
    using assms(3) foldl_set_add_Nil [of "q0 # map snd rest"]
    by (simp add: nested_batch del: nested_simps foldl_Cons first_occurrences.simps)
  let ?r = "run ?s ((t0, q0) # rest) w"
  have "invocations (drain ?s ?r) =
          invocations ?r @
            [\<lparr> fired_at = expiry tm', currentSeq = seq ?r, queries = batch ?r,
               request = Some (currentRequest ?r) \<rparr>]"
    by (rule fire_one_timer [OF one])
  also have "\<dots> = invocations w @
             [\<lparr> fired_at = t0 + ms, currentSeq = seq w,
                queries = first_occurrences (q0 # map snd rest),
                request = Some (currentRequest w) \<rparr>]"
    unfolding all
    by (simp add: tm'(2) sent del: nested_simps first_occurrences.simps)
  finally show ?thesis .
qed




lemmas eval_defs =
  create_def fetch_def timer_callback_def settle_def set_add_def expiry_def clamp_def
  TIMEOUT_MAX_def advance_def call_def drain_def expire_all_def windowScheduler_def
  bufferScheduler_def promise_outcome_def deref_def window_def Let_def

lemma find_first:
  "\<forall>x \<in> set before. \<not> P x \<Longrightarrow> P item \<Longrightarrow> List.find P (before @ item # rest) = Some item"
  by (induction before) auto

lemma strict_eq_iff: "strict_eq a b \<longleftrightarrow> a = b \<and> b \<noteq> JNaN"
  by (cases a; cases b) (simp_all add: strict_eq_def)

lemma returning_fire_starts_fresh_batch:
  fixes sched :: BatcherScheduler and evs :: "('q, 't, 'e) event list"
    and eq :: "'t \<Rightarrow> 'q \<Rightarrow> bool" and h :: nat
  defines "w \<equiv> exec sched evs create"
  defines "w' \<equiv> step sched (Expire h (Returns [])) (exec sched evs create)"
  assumes "List.find (\<lambda>tm. handle tm = h) (timers w) = Some tm"
  shows "batch w' = [] \<and> timer w' = None \<and> start w' = None \<and> latest w' = None \<and>
         deref (deferreds w') (currentRequest w') = Pending \<and>
         currentRequest w' \<noteq> currentRequest w \<and>
         Some (currentRequest w') \<notin> request ` set (invocations w') \<and>
         butlast (invocations w') = invocations w \<and>
         request (last (invocations w')) = Some (currentRequest w) \<and>
         queries (last (invocations w')) = batch w \<and>
         batch (fetch sched now q w') = [q] \<and>
         start (fetch sched now q w') = Some now \<and>
         chained_from (last (promises (fetch sched now q w'))) = currentRequest w' \<and>
         (\<forall>later p.
            p \<in> set (drop (length (promises w)) (promises (exec sched later w'))) \<longrightarrow>
            promise_outcome eq (exec sched later w') p
              = promise_outcome eq
                  (exec sched (filter (\<lambda>ev. \<not> settles (length (invocations w)) ev) later) w') p)"
proof -
  have c: "consistent w"
    unfolding w_def by (rule consistent_reachable)
  let ?v = "w \<lparr> timers := filter (\<lambda>tm. handle tm \<noteq> h) (timers w) \<rparr>"
  have w': "w' = timer_callback sched (expiry tm) (Returns []) ?v"
    using assms(3) by (simp add: w'_def w_def)
  have c': "consistent w'"
    unfolding w'_def w_def by (rule consistent_step [OF consistent_reachable])
  have len: "length (deferreds w) = Suc (currentRequest w)"
    by (rule consistentD(1) [OF c])
  have fields: "batch w' = [] \<and> timer w' = None \<and> start w' = None \<and> latest w' = None"
    by (simp add: w' timer_callback_def)
  have pend: "deref (deferreds w') (currentRequest w') = Pending"
    by (simp add: w' timer_callback_def deref_def)
  have cur: "currentRequest w' = Suc (currentRequest w)"
    using len by (simp add: w' timer_callback_def)
  have fresh: "Some (currentRequest w') \<notin> request ` set (invocations w')"
  proof
    assume "Some (currentRequest w') \<in> request ` set (invocations w')"
    then obtain j where "j < length (invocations w')"
        and "request (invocations w' ! j) = Some (currentRequest w')"
      by (auto simp: in_set_conv_nth)
    then show False
      using consistent_invocation(1) [OF c', of j "currentRequest w'"] by simp
  qed
  have fired: "butlast (invocations w') = invocations w \<and>
               request (last (invocations w')) = Some (currentRequest w) \<and>
               queries (last (invocations w')) = batch w"
    by (simp add: w' timer_callback_def)
  have "next": "batch (fetch sched now q w') = [q] \<and>
              start (fetch sched now q w') = Some now \<and>
              chained_from (last (promises (fetch sched now q w'))) = currentRequest w'"
    using fields by (simp add: fetch_fields set_add_def)
  have prom: "promises w' = promises w"
    by (simp add: w' timer_callback_def)
  have idx: "length (invocations w) < length (invocations w')"
    and req: "request (invocations w' ! length (invocations w)) = Some (currentRequest w)"
    by (simp_all add: w' timer_callback_def)
  have indep: "\<forall>later p.
            p \<in> set (drop (length (promises w)) (promises (exec sched later w'))) \<longrightarrow>
            promise_outcome eq (exec sched later w') p
              = promise_outcome eq
                  (exec sched (filter (\<lambda>ev. \<not> settles (length (invocations w)) ev) later) w') p"
  proof (intro allI impI)
    fix later :: "('q, 't, 'e) event list" and p
    assume "p \<in> set (drop (length (promises w)) (promises (exec sched later w')))"
    then have "currentRequest w' \<le> chained_from p"
      using later_promises [OF c', of p sched later] prom by simp
    then have ne: "chained_from p \<noteq> currentRequest w"
      using cur by simp
    have "same_but (currentRequest w) (exec sched later w')
            (exec sched (filter (\<lambda>ev. \<not> settles (length (invocations w)) ev) later) w')"
      by (rule same_but_exec [OF same_but_refl c' idx req])
    then show "promise_outcome eq (exec sched later w') p
              = promise_outcome eq
                  (exec sched (filter (\<lambda>ev. \<not> settles (length (invocations w)) ev) later) w') p"
      by (rule same_but_outcome [OF _ ne])
  qed
  show ?thesis
    using fields pend cur fresh fired "next" indep by simp
qed

section \<open>The claims\<close>

subsection \<open>Timing\<close>

text \<open>
  Claim C1. With \<open>windowScheduler ms\<close>, calls at times \<open>t0 \<le> t1 \<le> \<dots>\<close>, all before
  \<open>t0 + ms\<close>, are said to fire exactly at \<open>t0 + ms\<close>, in one fetcher call. The lemma
  \<open>window_fires_at_deadline\<close> above shows this for every \<open>t0 \<noteq> 0\<close> and every \<open>ms\<close>
  that \<open>setTimeout\<close> honours. When the clock reads \<open>0\<close> at the first call, \<open>start\<close> holds
  the number \<open>0\<close>, the test \<open>!start\<close> of the next call is true again, and \<open>start\<close> is set
  anew: for a window of 10 and calls at 0, 2 and 5 the batch fires at 12, not at 10.
\<close>

theorem window_restarts_at_clock_zero:
  "invocations (drain (windowScheduler 10) (run (windowScheduler 10) [(0, 1), (2, 2), (5, 3)]
       (create :: (nat, unit, unit) batcher)))
     = [\<lparr> fired_at = 12, currentSeq = 0, queries = [1, 2, 3], request = Some 0 \<rparr>]"
  by (simp add: eval_defs)

text \<open>The same calls one millisecond later fire on time, at 11.\<close>

lemma window_on_time_otherwise:
  "invocations (drain (windowScheduler 10) (run (windowScheduler 10) [(1, 1), (3, 2), (6, 3)]
       (create :: (nat, unit, unit) batcher)))
     = [\<lparr> fired_at = 11, currentSeq = 0, queries = [1, 2, 3], request = Some 0 \<rparr>]"
  by (simp add: eval_defs)




subsection \<open>The queries handed to the fetcher\<close>

text \<open>
  Claim C2. The calls of one batch window (any number of them, from an empty pending
  set) make the timer callback hand the fetcher a list without repetitions that holds
  exactly the queries asked: each of them occurs once, and the list is as long as there
  are different queries, however many calls asked for the same one. The callback adds
  this one fetcher call and no other, whatever the fetcher does while it runs.
\<close>

theorem dedup_within_window:
  assumes "batch w = []" and "calls \<noteq> []"
  shows "butlast (invocations (window sched calls does w)) = invocations w \<and>
         set (queries (last (invocations (window sched calls does w)))) = snd ` set calls \<and>
         distinct (queries (last (invocations (window sched calls does w)))) \<and>
         (\<forall>q \<in> snd ` set calls.
            count_list (queries (last (invocations (window sched calls does w)))) q = 1) \<and>
         length (queries (last (invocations (window sched calls does w))))
           = card (snd ` set calls)"
proof -
  have sent: "queries (last (invocations (window sched calls does w)))
                = first_occurrences (map snd calls)"
    by (rule last_invocation_after_window [OF assms])
  have "length (first_occurrences (map snd calls))
          = card (set (first_occurrences (map snd calls)))"
    by (simp only: distinct_card [OF distinct_first_occurrences])
  then have card: "length (first_occurrences (map snd calls)) = card (snd ` set calls)"
    by simp
  show ?thesis
    unfolding sent
    using last_invocation_after_window(1) [OF assms] card
    by (simp add: count_list_distinct)
qed

theorem dedup_within_window_witness:
  "batch (create :: (nat, unit, unit) batcher) = [] \<and>
   [(0, 1), (2, 2), (5, 1), (10, 2 :: nat)] \<noteq> ([] :: (int \<times> nat) list) \<and>
   queries (last (invocations (window (bufferScheduler 15)
       [(0, 1), (2, 2), (5, 1), (10, 2)] (Returns [(25, 2), (25, 2)])
       (create :: (nat, unit, unit) batcher)))) = [1, 2] \<and>
   distinct (queries (last (invocations (window (bufferScheduler 15)
       [(0, 1), (2, 2), (5, 1), (10, 2)] (Returns [(25, 2), (25, 2)])
       (create :: (nat, unit, unit) batcher)))))"
proof -
  have h1: "batch (create :: (nat, unit, unit) batcher) = []"
    by (simp add: create_def)
  have h2: "[(0, 1), (2, 2), (5, 1), (10, 2 :: nat)] \<noteq> ([] :: (int \<times> nat) list)"
    by simp
  have sent: "queries (last (invocations (window (bufferScheduler 15)
       [(0, 1), (2, 2), (5, 1), (10, 2)] (Returns [(25, 2), (25, 2)])
       (create :: (nat, unit, unit) batcher)))) = [1, 2]"
    by (simp add: eval_defs)
  show ?thesis
    using dedup_within_window [OF h1 h2, of "bufferScheduler 15" "Returns [(25, 2), (25, 2)]"]
      h1 sent
    by simp
qed

text \<open>
  Claim C8. The list the fetcher receives holds the queries of the window in the order
  in which each was first asked; this is also the list of the calls' queries with every
  repetition after the first removed.
\<close>

theorem fetcher_receives_insertion_order:
  assumes "batch w = []" and "calls \<noteq> []"
  shows "queries (last (invocations (window sched calls does w)))
           = first_occurrences (map snd calls)
       \<and> first_occurrences (map snd calls) = rev (remdups (rev (map snd calls)))"
  using last_invocation_after_window(2) [OF assms] first_occurrences_remdups by blast

theorem fetcher_receives_insertion_order_witness:
  "batch (create :: (nat, unit, unit) batcher) = [] \<and>
   [(0, 2), (1, 1), (1, 2), (4, 3), (4, 1 :: nat)] \<noteq> ([] :: (int \<times> nat) list) \<and>
   queries (last (invocations (window (windowScheduler 10)
       [(0, 2), (1, 1), (1, 2), (4, 3), (4, 1)] (Throws [(10, 0)])
       (create :: (nat, unit, unit) batcher))))
     = [2, 1, 3]"
proof -
  have h1: "batch (create :: (nat, unit, unit) batcher) = []"
    by (simp add: create_def)
  have h2: "[(0, 2), (1, 1), (1, 2), (4, 3), (4, 1 :: nat)] \<noteq> ([] :: (int \<times> nat) list)"
    by simp
  show ?thesis
    using fetcher_receives_insertion_order [OF h1 h2, of "windowScheduler 10" "Throws [(10, 0)]"] h1
    by simp
qed

text \<open>
  Claim C10. The fetcher is said never to be called with an empty list. The callback
  calls the fetcher before it replaces \<open>batch\<close> and sets \<open>timer\<close> to \<open>undefined\<close>. A
  fetcher that calls \<open>fetch(99)\<close> while it runs arms a timer; the callback then drops
  the pending set and forgets that timer without cancelling it; when it expires, the
  fetcher is called with the empty list. The lemma \<open>never_empty_without_reentrancy\<close>
  above shows the claim for every run in which no fetcher calls \<open>fetch\<close> while it runs.
\<close>

theorem fetcher_called_with_empty_list:
  "(let W = exec (windowScheduler 10) [Fetch 1 1, Expire 0 (Returns [(11, 99)])]
              (create :: (nat, nat, string) batcher)
    in timer W = None \<and>
       timers W = [\<lparr> handle = 1, armed_at = 11, delay = 0 \<rparr>] \<and>
       batch W = [] \<and>
       map queries (invocations (step (windowScheduler 10) (Expire 1 (Returns [])) W))
         = [[1], []])"
  by (simp add: eval_defs)

subsection \<open>Independent batches\<close>

text \<open>
  Claim C6. The fire of the timer is said to replace the working state by a fresh
  batch, so that a call arriving after the fire is independent of the fired batch. The
  callback calls the fetcher first. A call of \<open>fetch(99)\<close> made by the fetcher, after the
  timer has fired, is chained from the deferred of the fired batch, its query is in no
  list given to the fetcher, and it fails when the fired batch fails (state \<open>W\<close>). When
  the fetcher throws, nothing is replaced: the pending set, \<open>start\<close>, \<open>latest\<close>, the
  deferred and \<open>seq\<close> stay as they were (state \<open>V\<close>). The lemma
  \<open>returning_fire_starts_fresh_batch\<close> above shows the claim for a fetcher that returns
  its promise and makes no call of its own.
\<close>

theorem fire_does_not_detach_the_batch:
  "(let W = exec (windowScheduler 10) [Fetch 1 1, Expire 0 (Returns [(11, 99)])]
              (create :: (nat, nat, string) batcher);
        V = exec (windowScheduler 10) [Fetch 1 1, Expire 0 (Throws [])]
              (create :: (nat, nat, string) batcher)
    in map queries (invocations W) = [[1]] \<and>
       request (invocations W ! 0) = Some 0 \<and>
       promises W ! 1 = \<lparr> chained_from = 0, asked = 99 \<rparr> \<and>
       batch W = [] \<and> currentRequest W = 1 \<and>
       promise_outcome (=) (settle 0 (Inl ''boom'') W) (promises W ! 1) = Failed ''boom'' \<and>
       map queries (invocations V) = [[1]] \<and>
       batch V = [1] \<and> timer V = Some 0 \<and> timers V = [] \<and>
       start V = Some 1 \<and> latest V = Some 1 \<and>
       currentRequest V = 0 \<and> deferreds V = [Pending] \<and> seq V = 0)"
  by (simp add: eval_defs)

subsection \<open>Failure of the fetcher\<close>



subsection \<open>Correlating the result with the queries\<close>

text \<open>
  Claim C5. A configuration is said to take a function from the result and the query
  to a value, and each caller to be handed what that function selects. The test "custom
  resolver" passes such a function as \<open>resolver\<close> and expects the two posts of each
  author. \<open>create\<close> reads \<open>config.equality\<close> only: with the configuration of the test it
  compares the property named \<open>undefined\<close> of each post with the query, finds nothing,
  and hands \<open>undefined\<close> to both callers, after one fetcher call for both.
\<close>

theorem resolver_is_ignored:
  "(let W = exec (config_scheduler resolver_config)
              [Fetch 1 (JObj 1), Fetch 1 (JObj 2), Expire 1 (Returns []),
               Settle 0 (Inr example_posts)]
              (create :: (jsval, item, jsval) batcher)
    in resolver resolver_config = Some posts_of_author \<and>
       equality resolver_config = Missing \<and>
       config_equality resolver_config = keyEquality ''undefined'' \<and>
       map queries (invocations W) = [[JObj 1, JObj 2]] \<and>
       promise_outcome (config_equality resolver_config) W (promises W ! 0) = Fulfilled None \<and>
       promise_outcome (config_equality resolver_config) W (promises W ! 1) = Fulfilled None \<and>
       posts_of_author example_posts (asked (promises W ! 0))
         = [[(''id'', JNum 1), (''title'', JStr ''Hello''), (''authorId'', JNum 1)],
            [(''id'', JNum 2), (''title'', JStr ''World''), (''authorId'', JNum 1)]] \<and>
       posts_of_author example_posts (asked (promises W ! 1))
         = [[(''id'', JNum 3), (''title'', JStr ''Hello''), (''authorId'', JNum 2)],
            [(''id'', JNum 4), (''title'', JStr ''World''), (''authorId'', JNum 2)]])"
proof -
  have "config_equality resolver_config = keyEquality ''undefined''"
    by (simp add: resolver_config_def config_equality_def)
  then show ?thesis
    by (simp add: eval_defs resolver_config_def config_scheduler_def
          keyEquality_def strict_eq_def example_posts_def posts_of_author_def author_of_def)
qed

text \<open>
  Claim C7. When no item of the result matches a caller's query, the caller's promise
  is fulfilled with \<open>undefined\<close>; it is not rejected. The deferred takes any result as
  it comes and keeps it, and every caller of the batch is fulfilled with what \<open>find\<close> gives for its
  own query: nothing checks that each query of the batch found an item.
\<close>

theorem unmatched_query_resolves_undefined:
  fixes sched :: BatcherScheduler and evs :: "('q, 't, 'e) event list"
    and eq :: "'t \<Rightarrow> 'q \<Rightarrow> bool"
  defines "w \<equiv> exec sched evs create"
  assumes "i < length (invocations w)"
    and "request (invocations w ! i) = Some r"
    and "deref (deferreds w) r = Pending"
    and "chained_from p = r"
    and "\<forall>item \<in> set data. \<not> eq item (asked p)"
  shows "promise_outcome eq (settle i (Inr data) w) p = Fulfilled None \<and>
         deref (deferreds (settle i (Inr data) w)) r = Resolved data \<and>
         (\<forall>again. settle i again (settle i (Inr data) w) = settle i (Inr data) w) \<and>
         (\<forall>p'. chained_from p' = r \<longrightarrow>
            promise_outcome eq (settle i (Inr data) w) p'
              = Fulfilled (List.find (\<lambda>item. eq item (asked p')) data))"
proof -
  have c: "consistent w"
    unfolding w_def by (rule consistent_reachable)
  have none: "List.find (\<lambda>item. eq item (asked p)) data = None"
    using assms(6) by (simp add: find_None_iff)
  have "promise_outcome eq (settle i (Inr data) w) p = Fulfilled None"
    using settled_outcome [OF c assms(2,3,4,5), of eq "Inr data"] none by simp
  moreover have "deref (deferreds (settle i (Inr data) w)) r = Resolved data"
    using settle_pending [OF c assms(2,3,4), of "Inr data"] by simp
  moreover have "\<forall>again. settle i again (settle i (Inr data) w) = settle i (Inr data) w"
    using settle_once [OF c assms(2,3,4)] by blast
  moreover have "\<forall>p'. chained_from p' = r \<longrightarrow>
            promise_outcome eq (settle i (Inr data) w) p'
              = Fulfilled (List.find (\<lambda>item. eq item (asked p')) data)"
    using settled_outcome [OF c assms(2,3,4), of _ eq "Inr data"] by simp
  ultimately show ?thesis by blast
qed

theorem unmatched_query_resolves_undefined_witness:
  "(let W = exec (windowScheduler 10) [Fetch 1 1, Fetch 1 7, Expire 1 (Returns [])]
              (create :: (nat, nat, string) batcher)
    in 0 < length (invocations W) \<and>
       request (invocations W ! 0) = Some 0 \<and>
       deref (deferreds W) 0 = Pending \<and>
       chained_from (promises W ! 1) = 0 \<and>
       asked (promises W ! 1) = 7 \<and>
       7 \<notin> set [1 :: nat] \<and>
       promise_outcome (=) (settle 0 (Inr [1]) W) (promises W ! 1) = Fulfilled None \<and>
       promise_outcome (=) (settle 0 (Inr [1]) W) (promises W ! 0) = Fulfilled (Some 1))"
proof -
  define W where "W = exec (windowScheduler 10) [Fetch 1 1, Fetch 1 7, Expire 1 (Returns [])]
                        (create :: (nat, nat, string) batcher)"
  have h1: "0 < length (invocations W)"
    by (simp add: W_def eval_defs)
  have h2: "request (invocations W ! 0) = Some 0"
    by (simp add: W_def eval_defs)
  have h3: "deref (deferreds W) 0 = Pending"
    by (simp add: W_def eval_defs)
  have h4: "chained_from (promises W ! 1) = 0"
    by (simp add: W_def eval_defs)
  have asked: "asked (promises W ! 1) = 7"
    by (simp add: W_def eval_defs)
  have h5: "\<forall>item \<in> set [1 :: nat]. \<not> item = asked (promises W ! 1)"
    unfolding asked by simp
  note miss = unmatched_query_resolves_undefined [where sched = "windowScheduler 10"
      and evs = "[Fetch 1 1, Fetch 1 7, Expire 1 (Returns [])] :: (nat, nat, string) event list"
      and i = 0 and r = 0 and eq = "(=)" and data = "[1]", folded W_def, OF h1 h2 h3 h4 h5]
  have none: "promise_outcome (=) (settle 0 (Inr [1]) W) (promises W ! 1) = Fulfilled None"
    using miss by blast
  have other: "promise_outcome (=) (settle 0 (Inr [1]) W) (promises W ! 0) = Fulfilled (Some 1)"
    by (simp add: W_def eval_defs)
  show ?thesis
    unfolding Let_def W_def [symmetric]
    using h1 h2 h3 h4 asked none other by simp
qed

text \<open>
  Claim C9. When several items match, the caller is handed the first one in the order
  of the result, whatever follows it. A function given as \<open>equality\<close> is used as it
  is. A key given as \<open>equality\<close> stands for \<open>keyEquality\<close>, which compares the query with the value the item stores under that
  key and under no other: an item without the key matches \<open>undefined\<close> only, and an
  item whose first property has another name matches as the rest of it does. The two
  match exactly when they are the same value other than \<open>NaN\<close>. Nothing is coerced:
  the number \<open>n\<close> does not match a string, nor \<open>true\<close> a number, nor \<open>null\<close>
  \<open>undefined\<close>, and two objects match when they are the same object.
\<close>

theorem first_match_strict_identity:
  fixes sched :: BatcherScheduler and evs :: "('q, 't, 'e) event list"
    and eq :: "'t \<Rightarrow> 'q \<Rightarrow> bool"
  defines "w \<equiv> exec sched evs create"
  assumes "i < length (invocations w)"
    and "request (invocations w ! i) = Some r"
    and "deref (deferreds w) r = Pending"
    and "chained_from p = r"
    and "\<forall>x \<in> set before. \<not> eq x (asked p)"
    and "eq item (asked p)"
  shows "promise_outcome eq (settle i (Inr (before @ item # rest)) w) p = Fulfilled (Some item) \<and>
         config_equality \<lparr> scheduler = s, equality = Function f, resolver = rs \<rparr> = f \<and>
         config_equality \<lparr> scheduler = s, equality = Key key, resolver = rs \<rparr> = keyEquality key \<and>
         (keyEquality key [] query \<longleftrightarrow> query = JUndefined) \<and>
         (keyEquality key ((name, v) # props) query \<longleftrightarrow>
            (if name = key then v = query \<and> query \<noteq> JNaN else keyEquality key props query)) \<and>
         \<not> keyEquality key ((key, JNum n) # props) (JStr str) \<and>
         \<not> keyEquality key ((key, JBool b) # props) (JNum n) \<and>
         \<not> keyEquality key ((key, JNull) # props) JUndefined \<and>
         \<not> keyEquality key ((key, JNaN) # props) JNaN \<and>
         (keyEquality key ((key, JObj a) # props) (JObj a') \<longleftrightarrow> a = a')"
proof -
  have c: "consistent w"
    unfolding w_def by (rule consistent_reachable)
  have "List.find (\<lambda>x. eq x (asked p)) (before @ item # rest) = Some item"
    using assms(6,7) by (simp add: find_first)
  then have "promise_outcome eq (settle i (Inr (before @ item # rest)) w) p
               = Fulfilled (Some item)"
    using settled_outcome [OF c assms(2,3,4,5), of eq "Inr (before @ item # rest)"] by simp
  moreover have "config_equality \<lparr> scheduler = s, equality = Function f, resolver = rs \<rparr> = f"
    and "config_equality \<lparr> scheduler = s, equality = Key key, resolver = rs \<rparr>
           = keyEquality key"
    by (simp_all add: config_equality_def)
  moreover have "keyEquality key [] query \<longleftrightarrow> query = JUndefined"
    by (auto simp: keyEquality_def strict_eq_iff)
  moreover have "keyEquality key ((name, v) # props) query \<longleftrightarrow>
            (if name = key then v = query \<and> query \<noteq> JNaN else keyEquality key props query)"
    by (simp add: keyEquality_def strict_eq_iff)
  moreover have "\<not> keyEquality key ((key, JNum n) # props) (JStr str)"
    and "\<not> keyEquality key ((key, JBool b) # props) (JNum n)"
    and "\<not> keyEquality key ((key, JNull) # props) JUndefined"
    and "\<not> keyEquality key ((key, JNaN) # props) JNaN"
    and "keyEquality key ((key, JObj a) # props) (JObj a') \<longleftrightarrow> a = a'"
    by (simp_all add: keyEquality_def strict_eq_iff)
  ultimately show ?thesis by blast
qed

theorem first_match_strict_identity_witness:
  "(let W = exec (windowScheduler 10) [Fetch 1 (JNum 1), Expire 0 (Returns [])]
              (create :: (jsval, item, jsval) batcher);
        alice = [(''rank'', JNum 1), (''name'', JStr ''Alice''), (''id'', JNum 2)];
        carol = [(''name'', JStr ''Carol''), (''id'', JStr ''1'')];
        bob = [(''name'', JStr ''Bob''), (''id'', JNum 1)];
        bobby = [(''id'', JNum 1), (''name'', JStr ''Bobby'')]
    in 0 < length (invocations W) \<and>
       request (invocations W ! 0) = Some 0 \<and>
       deref (deferreds W) 0 = Pending \<and>
       chained_from (promises W ! 0) = 0 \<and>
       asked (promises W ! 0) = JNum 1 \<and>
       \<not> keyEquality ''id'' alice (JNum 1) \<and>
       \<not> keyEquality ''id'' carol (JNum 1) \<and>
       keyEquality ''id'' bob (JNum 1) \<and>
       keyEquality ''id'' bobby (JNum 1) \<and>
       promise_outcome (keyEquality ''id'') (settle 0 (Inr ([alice, carol] @ bob # [bobby])) W)
           (promises W ! 0) = Fulfilled (Some bob))"
proof -
  define W where "W = exec (windowScheduler 10) [Fetch 1 (JNum 1), Expire 0 (Returns [])]
                        (create :: (jsval, item, jsval) batcher)"
  define alice where "alice = [(''rank'', JNum 1), (''name'', JStr ''Alice''), (''id'', JNum 2)]"
  define carol where "carol = [(''name'', JStr ''Carol''), (''id'', JStr ''1'')]"
  define bob where "bob = [(''name'', JStr ''Bob''), (''id'', JNum 1)]"
  define bobby where "bobby = [(''id'', JNum 1), (''name'', JStr ''Bobby'')]"
  have h1: "0 < length (invocations W)"
    by (simp add: W_def eval_defs)
  have h2: "request (invocations W ! 0) = Some 0"
    by (simp add: W_def eval_defs)
  have h3: "deref (deferreds W) 0 = Pending"
    by (simp add: W_def eval_defs)
  have h4: "chained_from (promises W ! 0) = 0"
    by (simp add: W_def eval_defs)
  have asked: "asked (promises W ! 0) = JNum 1"
    by (simp add: W_def eval_defs)
  have no_alice: "\<not> keyEquality ''id'' alice (JNum 1)"
    and no_carol: "\<not> keyEquality ''id'' carol (JNum 1)"
    and yes_bob: "keyEquality ''id'' bob (JNum 1)"
    and yes_bobby: "keyEquality ''id'' bobby (JNum 1)"
    by (simp_all add: alice_def carol_def bob_def bobby_def keyEquality_def strict_eq_def)
  have h5: "\<forall>x \<in> set [alice, carol]. \<not> keyEquality ''id'' x (asked (promises W ! 0))"
    unfolding asked using no_alice no_carol by simp
  have h6: "keyEquality ''id'' bob (asked (promises W ! 0))"
    unfolding asked by (rule yes_bob)
  have out: "promise_outcome (keyEquality ''id'') (settle 0 (Inr ([alice, carol] @ bob # [bobby])) W)
           (promises W ! 0) = Fulfilled (Some bob)"
    using first_match_strict_identity [where sched = "windowScheduler 10"
        and evs = "[Fetch 1 (JNum 1), Expire 0 (Returns [])] :: (jsval, item, jsval) event list"
        and i = 0 and r = 0 and eq = "keyEquality ''id''" and before = "[alice, carol]"
        and item = bob and rest = "[bobby]" and key = "''id''" and s = None and rs = None
        and query = JNull and name = "''id''" and v = JNull and props = "[]"
        and n = 0 and str = "[]" and b = True and a = 0 and a' = 0
        and f = "keyEquality ''id''",
        folded W_def, OF h1 h2 h3 h4 h5 h6]
    by blast
  show ?thesis
    unfolding Let_def W_def [symmetric] alice_def [symmetric] carol_def [symmetric]
      bob_def [symmetric] bobby_def [symmetric]
    using h1 h2 h3 h4 asked no_alice no_carol yes_bob yes_bobby out by blast
qed

end
